theory Spec2Isabelle
  imports Main
begin

section \<open>Data model\<close>

text \<open>
  A \<open>pyarrow\<close> table is an ordered list of named columns together with its row count
  (\<open>len(arrow_table)\<close>). A column is either an array of the input (its cells are kept
  abstract) or the dictionary-encoded array that \<open>_generate_label_column\<close> builds.
  Column names may repeat in a \<open>pyarrow\<close> table, so the columns are an association list.
\<close>

record dictionary_array =
  dict_indices :: "nat list"
  dictionary :: "string list"
  dict_mask :: "bool list"

datatype 'a array = PlainArray "'a list" | DictArray dictionary_array

record 'a table =
  num_rows :: nat
  columns :: "(string \<times> 'a array) list"

definition column_names :: "'a table \<Rightarrow> string list" where
  "column_names t = map fst (columns t)"

fun array_len :: "'a array \<Rightarrow> nat" where
  "array_len (PlainArray xs) = length xs"
| "array_len (DictArray d) = length (dict_indices d)"

text \<open>
  One entry of \<open>params["labels"]\<close>: the keys \<open>"value"\<close> and \<open>"condition"\<close>; a condition
  that is \<open>None\<close> in the source is \<open>None\<close> here. The conditions themselves are opaque
  descriptors of type \<open>'c\<close>.
\<close>

record 'c label_spec =
  label_value :: string
  condition :: "'c option"

record 'c params =
  colname :: string
  labels :: "'c label_spec list"

text \<open>
  \<open>re.error\<close> with its fields \<open>pattern\<close> and \<open>msg\<close>; the message that \<open>i18n.trans\<close>
  builds (its id and its arguments; the default text is not part of the message).
\<close>

datatype re_error = ReError string string

datatype arg_value = Str string | Num int

datatype i18n_message = I18nMessage string "(string \<times> arg_value) list"

definition i18n_trans ::
  "string \<Rightarrow> string \<Rightarrow> (string \<times> arg_value) list \<Rightarrow> i18n_message" where
  "i18n_trans msg_id default_text arguments = I18nMessage msg_id arguments"

text \<open>
  The exceptions that the source does not catch: \<open>ValueError\<close> (operands that do not
  broadcast, a list pattern of the wrong length), \<open>IndexError\<close> (a boolean index of the
  wrong length), \<open>ArrowInvalid\<close> (a column whose length is not the table's).
\<close>

datatype fatal = ValueError | IndexError | ArrowInvalid

text \<open>
  The condition evaluator \<open>condition_to_mask\<close> and the name sanitizer
  \<open>gen_unique_clean_colnames_and_warn\<close> belong to the library \<open>cjwmodule\<close>, not to this
  module: every function below takes them as parameters. The evaluator returns a mask
  or raises \<open>re.error\<close>, the one exception that the module catches; an evaluator that
  raises anything else is not of this type.
\<close>

type_synonym ('a, 'c) evaluator = "'a table \<Rightarrow> 'c \<Rightarrow> re_error + bool list"

type_synonym 's sanitizer =
  "string list \<Rightarrow> string list \<Rightarrow> 's \<Rightarrow> string list \<times> i18n_message list"

section \<open>\<open>numpy\<close> and list operations used by the source\<close>

text \<open>
  \<open>a & b\<close> on two one-dimensional boolean arrays: element by element when the lengths
  agree; an operand of length 1 is broadcast to the length of the other; any other pair
  of lengths raises \<open>ValueError\<close>.
\<close>

definition np_and :: "bool list \<Rightarrow> bool list \<Rightarrow> fatal + bool list" where
  "np_and a b =
     (if length a = length b then Inr (map2 (\<lambda>x y. x \<and> y) a b)
      else if length a = 1 then Inr (map (\<lambda>y. hd a \<and> y) b)
      else if length b = 1 then Inr (map (\<lambda>x. x \<and> hd b) a)
      else Inl ValueError)"

definition np_any :: "bool list \<Rightarrow> bool" where
  "np_any m = list_ex (\<lambda>b. b) m"

text \<open>
  \<open>xs[m] = v\<close> with a boolean index \<open>m\<close> of the length of \<open>xs\<close> (the length is checked by
  the caller below, where \<open>numpy\<close> raises \<open>IndexError\<close>).
\<close>

definition put_mask :: "'b list \<Rightarrow> bool list \<Rightarrow> 'b \<Rightarrow> 'b list" where
  "put_mask xs m v = map2 (\<lambda>x b. if b then v else x) xs m"

text \<open>\<open>values.index(value)\<close>: the first position of the value, \<open>None\<close> for \<open>ValueError\<close>.\<close>

fun list_index :: "'b list \<Rightarrow> 'b \<Rightarrow> nat option" where
  "list_index [] v = None"
| "list_index (x # xs) v = (if x = v then Some 0 else map_option Suc (list_index xs v))"

section \<open>\<open>_generate_label_column\<close>\<close>

text \<open>
  The local variables of the function. The source's \<open>values\<close> is \<open>vals\<close> here. The
  indices are \<open>np.int32\<close> in the source and natural numbers here: an index is below
  the number of dictionary values, and every rule adds at most one, so the two agree
  for every list of fewer than \<open>2^31\<close> rules.
\<close>

record asm_state =
  errors :: "i18n_message list"
  nulls :: "bool list"
  vals :: "string list"
  indices :: "nat list"

definition init_state :: "'a table \<Rightarrow> asm_state" where
  "init_state t =
     \<lparr> errors = [],
       nulls = replicate (num_rows t) True,
       vals = [],
       indices = replicate (num_rows t) 0 \<rparr>"

text \<open>
  The message of line 31. Its default text is written without the typographic quotation
  marks of the source; the arguments are those of the source, with the key \<open>value\<close>.
\<close>

definition invalid_regex :: "re_error \<Rightarrow> i18n_message" where
  "invalid_regex err =
     (case err of ReError pattern msg \<Rightarrow>
        i18n_trans ''error.invalidRegex''
          ''Invalid regular expression {pattern}: {message}''
          [(''value'', Str pattern), (''message'', Str msg)])"

text \<open>The lookup of lines 47 to 51: the index of the value and the dictionary after it.\<close>

definition resolve_index :: "string list \<Rightarrow> string \<Rightarrow> nat \<times> string list" where
  "resolve_index vs v =
     (case list_index vs v of
        Some i \<Rightarrow> (i, vs)
      | None \<Rightarrow> (length vs, vs @ [v]))"

text \<open>The lookup and the writes of lines 47 to 55.\<close>

definition write_rows :: "asm_state \<Rightarrow> bool list \<Rightarrow> string \<Rightarrow> fatal + asm_state" where
  "write_rows st np_mask v =
     (case resolve_index (vals st) v of (index, vs) \<Rightarrow>
        if length np_mask \<noteq> length (nulls st) then Inl IndexError
        else Inr (st\<lparr> vals := vs,
                      nulls := put_mask (nulls st) np_mask False,
                      indices := (if index > 0 then put_mask (indices st) np_mask index
                                  else indices st) \<rparr>))"

text \<open>One iteration of the loop over \<open>label_specs\<close>.\<close>

definition loop_body ::
  "('a, 'c) evaluator \<Rightarrow> 'a table \<Rightarrow> asm_state \<Rightarrow> 'c label_spec \<Rightarrow> fatal + asm_state" where
  "loop_body condition_to_mask t st spec =
     (case condition spec of
        None \<Rightarrow> Inr st
      | Some c \<Rightarrow>
          (case condition_to_mask t c of
             Inl err \<Rightarrow> Inr (st\<lparr> errors := errors st @ [invalid_regex err] \<rparr>)
           | Inr m \<Rightarrow>
               (case np_and m (nulls st) of
                  Inl e \<Rightarrow> Inl e
                | Inr np_mask \<Rightarrow>
                    if \<not> np_any np_mask then Inr st
                    else write_rows st np_mask (label_value spec))))"

fun label_loop ::
  "('a, 'c) evaluator \<Rightarrow> 'a table \<Rightarrow> asm_state \<Rightarrow> 'c label_spec list \<Rightarrow> fatal + asm_state" where
  "label_loop ev t st [] = Inr st"
| "label_loop ev t st (spec # specs) =
     (case loop_body ev t st spec of
        Inl e \<Rightarrow> Inl e
      | Inr st' \<Rightarrow> label_loop ev t st' specs)"

text \<open>\<open>pa.DictionaryArray.from_arrays(indices, pa.array(values, pa.utf8()), mask=nulls)\<close>.\<close>

definition from_arrays :: "nat list \<Rightarrow> string list \<Rightarrow> bool list \<Rightarrow> dictionary_array" where
  "from_arrays is vs ns = \<lparr> dict_indices = is, dictionary = vs, dict_mask = ns \<rparr>"

definition generate_label_column ::
  "('a, 'c) evaluator \<Rightarrow> 'a table \<Rightarrow> 'c label_spec list
     \<Rightarrow> fatal + dictionary_array \<times> i18n_message list" where
  "generate_label_column ev t label_specs =
     (case label_loop ev t (init_state t) label_specs of
        Inl e \<Rightarrow> Inl e
      | Inr st \<Rightarrow> Inr (from_arrays (indices st) (vals st) (nulls st), errors st))"

section \<open>\<open>_add_column\<close> and \<open>render\<close>\<close>

text \<open>
  \<open>Table.set_column\<close> and \<open>Table.append_column\<close> return a new table and refuse a column
  whose length is not the table's. The position given to \<open>set_column\<close> comes from
  \<open>column_names.index\<close>, so it is in range.
\<close>

definition set_column :: "'a table \<Rightarrow> nat \<Rightarrow> string \<Rightarrow> 'a array \<Rightarrow> fatal + 'a table" where
  "set_column t i name data =
     (if array_len data \<noteq> num_rows t then Inl ArrowInvalid
      else Inr (t\<lparr> columns := (columns t)[i := (name, data)] \<rparr>))"

definition append_column :: "'a table \<Rightarrow> string \<Rightarrow> 'a array \<Rightarrow> fatal + 'a table" where
  "append_column t name data =
     (if array_len data \<noteq> num_rows t then Inl ArrowInvalid
      else Inr (t\<lparr> columns := columns t @ [(name, data)] \<rparr>))"

definition add_column ::
  "'s sanitizer \<Rightarrow> 'a table \<Rightarrow> string \<Rightarrow> 'a array \<Rightarrow> 's
     \<Rightarrow> fatal + 'a table \<times> i18n_message list" where
  "add_column gen_unique_clean_colnames_and_warn t name data settings =
     (if name \<in> set (column_names t) then
        (case list_index (column_names t) name of
           None \<Rightarrow> Inl ValueError
         | Some i \<Rightarrow>
             (case set_column t i name data of
                Inl e \<Rightarrow> Inl e
              | Inr t' \<Rightarrow> Inr (t', [])))
      else
        (case gen_unique_clean_colnames_and_warn [name] (column_names t) settings of
           ([clean_colname], errs) \<Rightarrow>
             (case append_column t clean_colname data of
                Inl e \<Rightarrow> Inl e
              | Inr t' \<Rightarrow> Inr (t', errs))
         | _ \<Rightarrow> Inl ValueError))"

text \<open>
  \<open>render\<close> returns the list of errors and writes a table to \<open>output_path\<close> or leaves the
  file empty: the result is the table written, if any, and the list returned.
\<close>

definition render ::
  "('a, 'c) evaluator \<Rightarrow> 's sanitizer \<Rightarrow> 'a table \<Rightarrow> 'c params \<Rightarrow> 's
     \<Rightarrow> fatal + 'a table option \<times> i18n_message list" where
  "render ev san t ps settings =
     (if colname ps = [] then Inr (Some t, [])
      else
        (case generate_label_column ev t (labels ps) of
           Inl e \<Rightarrow> Inl e
         | Inr (label_column, errs) \<Rightarrow>
             if errs \<noteq> [] then Inr (None, errs)
             else
               (case add_column san t (colname ps) (DictArray label_column) settings of
                  Inl e \<Rightarrow> Inl e
                | Inr (output_table, add_column_errors) \<Rightarrow>
                    Inr (Some output_table, errs @ add_column_errors))))"

section \<open>The variant that always writes the index\<close>

text \<open>
  The same loop without the test \<open>index > 0\<close> of line 54: every row selected by the
  effective mask gets the resolved index written.
\<close>

definition naive_write_rows :: "asm_state \<Rightarrow> bool list \<Rightarrow> string \<Rightarrow> fatal + asm_state" where
  "naive_write_rows st np_mask v =
     (case resolve_index (vals st) v of (index, vs) \<Rightarrow>
        if length np_mask \<noteq> length (nulls st) then Inl IndexError
        else Inr (st\<lparr> vals := vs,
                      nulls := put_mask (nulls st) np_mask False,
                      indices := put_mask (indices st) np_mask index \<rparr>))"

definition naive_loop_body ::
  "('a, 'c) evaluator \<Rightarrow> 'a table \<Rightarrow> asm_state \<Rightarrow> 'c label_spec \<Rightarrow> fatal + asm_state" where
  "naive_loop_body condition_to_mask t st spec =
     (case condition spec of
        None \<Rightarrow> Inr st
      | Some c \<Rightarrow>
          (case condition_to_mask t c of
             Inl err \<Rightarrow> Inr (st\<lparr> errors := errors st @ [invalid_regex err] \<rparr>)
           | Inr m \<Rightarrow>
               (case np_and m (nulls st) of
                  Inl e \<Rightarrow> Inl e
                | Inr np_mask \<Rightarrow>
                    if \<not> np_any np_mask then Inr st
                    else naive_write_rows st np_mask (label_value spec))))"

fun naive_label_loop ::
  "('a, 'c) evaluator \<Rightarrow> 'a table \<Rightarrow> asm_state \<Rightarrow> 'c label_spec list \<Rightarrow> fatal + asm_state" where
  "naive_label_loop ev t st [] = Inr st"
| "naive_label_loop ev t st (spec # specs) =
     (case naive_loop_body ev t st spec of
        Inl e \<Rightarrow> Inl e
      | Inr st' \<Rightarrow> naive_label_loop ev t st' specs)"

definition naive_generate_label_column ::
  "('a, 'c) evaluator \<Rightarrow> 'a table \<Rightarrow> 'c label_spec list
     \<Rightarrow> fatal + dictionary_array \<times> i18n_message list" where
  "naive_generate_label_column ev t label_specs =
     (case naive_label_loop ev t (init_state t) label_specs of
        Inl e \<Rightarrow> Inl e
      | Inr st \<Rightarrow> Inr (from_arrays (indices st) (vals st) (nulls st), errors st))"

section \<open>The notions of the specification\<close>

text \<open>
  The evaluator's contract is one mask entry per row. \<open>masks_fit\<close> says that it is kept
  on the conditions of a rule list.
\<close>

definition mask_fits :: "('a, 'c) evaluator \<Rightarrow> 'a table \<Rightarrow> 'c label_spec \<Rightarrow> bool" where
  "mask_fits ev t spec =
     (case condition spec of
        None \<Rightarrow> True
      | Some c \<Rightarrow> (case ev t c of Inl err \<Rightarrow> True | Inr m \<Rightarrow> length m = num_rows t))"

definition masks_fit :: "('a, 'c) evaluator \<Rightarrow> 'a table \<Rightarrow> 'c label_spec list \<Rightarrow> bool" where
  "masks_fit ev t specs = list_all (mask_fits ev t) specs"

text \<open>
  A rule matches a row when its condition is present, evaluates without error and its
  mask is true at the row.
\<close>

definition matches :: "('a, 'c) evaluator \<Rightarrow> 'a table \<Rightarrow> 'c label_spec \<Rightarrow> nat \<Rightarrow> bool" where
  "matches ev t spec i =
     (case condition spec of
        None \<Rightarrow> False
      | Some c \<Rightarrow> (case ev t c of Inl err \<Rightarrow> False | Inr m \<Rightarrow> m ! i))"

text \<open>The value of the first rule, in input order, that matches the row.\<close>

definition first_match ::
  "('a, 'c) evaluator \<Rightarrow> 'a table \<Rightarrow> 'c label_spec list \<Rightarrow> nat \<Rightarrow> string option" where
  "first_match ev t specs i = map_option label_value (find (\<lambda>spec. matches ev t spec i) specs)"

text \<open>
  The rows of a dictionary-encoded array as \<open>to_pylist()\<close> gives them: \<open>None\<close> for a null
  row, the dictionary entry of the row's index otherwise.
\<close>

definition to_pylist :: "dictionary_array \<Rightarrow> string option list" where
  "to_pylist arr =
     map2 (\<lambda>i n. if n then None else Some (dictionary arr ! i)) (dict_indices arr) (dict_mask arr)"

text \<open>The message of every rule whose condition fails to evaluate, in rule order.\<close>

definition pattern_errors ::
  "('a, 'c) evaluator \<Rightarrow> 'a table \<Rightarrow> 'c label_spec list \<Rightarrow> i18n_message list" where
  "pattern_errors ev t specs =
     concat (map (\<lambda>spec. case condition spec of
                            None \<Rightarrow> []
                          | Some c \<Rightarrow> (case ev t c of Inl err \<Rightarrow> [invalid_regex err] | Inr m \<Rightarrow> []))
                 specs)"

text \<open>
  The effective selection of a rule that comes after the rules \<open>pre\<close>: the rows that it
  matches and that no rule of \<open>pre\<close> matches.
\<close>

definition effective_rows ::
  "('a, 'c) evaluator \<Rightarrow> 'a table \<Rightarrow> 'c label_spec list \<Rightarrow> 'c label_spec \<Rightarrow> nat list" where
  "effective_rows ev t pre spec =
     filter (\<lambda>i. matches ev t spec i \<and> \<not> list_ex (\<lambda>p. matches ev t p i) pre) [0..<num_rows t]"

text \<open>The values of the rules with a non-empty effective selection, in rule order.\<close>

fun used_values ::
  "('a, 'c) evaluator \<Rightarrow> 'a table \<Rightarrow> 'c label_spec list \<Rightarrow> 'c label_spec list \<Rightarrow> string list" where
  "used_values ev t pre [] = []"
| "used_values ev t pre (spec # specs) =
     (if effective_rows ev t pre spec = [] then [] else [label_value spec])
       @ used_values ev t (pre @ [spec]) specs"

text \<open>A list without its repetitions, every element at its first position.\<close>

definition first_seen :: "'b list \<Rightarrow> 'b list" where
  "first_seen xs = rev (remdups (rev xs))"

text \<open>
  The state is well formed: every row that is not null has an index below the number of
  dictionary values, and the values are pairwise distinct.
\<close>

definition well_formed :: "bool list \<Rightarrow> nat list \<Rightarrow> string list \<Rightarrow> bool" where
  "well_formed ns is vs =
     (length is = length ns \<and> distinct vs \<and> list_all2 (\<lambda>n i. n \<or> i < length vs) ns is)"

section \<open>Invariants of the loop\<close>

text \<open>
  The index of a null row is still the initial 0, and an effective mask selects null
  rows only.
\<close>

definition null_rows_zero :: "asm_state \<Rightarrow> bool" where
  "null_rows_zero st =
     (length (indices st) = length (nulls st)
      \<and> (\<forall>i < length (nulls st). nulls st ! i \<longrightarrow> indices st ! i = 0))"

definition below_nulls :: "bool list \<Rightarrow> asm_state \<Rightarrow> bool" where
  "below_nulls np st = (\<forall>i < length (nulls st). np ! i \<longrightarrow> nulls st ! i)"

text \<open>
  The state that the rules \<open>pre\<close> leave behind: a row is null exactly when none of them
  matches it, and it refers to the value of the first one that does otherwise; the
  errors are those of \<open>pre\<close>, and the dictionary holds the values that \<open>pre\<close> used, in
  the order of their first use.
\<close>

definition row_ok ::
  "('a, 'c) evaluator \<Rightarrow> 'a table \<Rightarrow> 'c label_spec list \<Rightarrow> asm_state \<Rightarrow> nat \<Rightarrow> bool" where
  "row_ok ev t pre st i =
     (if nulls st ! i then indices st ! i = 0 \<and> first_match ev t pre i = None
      else indices st ! i < length (vals st)
           \<and> first_match ev t pre i = Some (vals st ! (indices st ! i)))"

definition after_rules ::
  "('a, 'c) evaluator \<Rightarrow> 'a table \<Rightarrow> 'c label_spec list \<Rightarrow> asm_state \<Rightarrow> bool" where
  "after_rules ev t pre st =
     (length (nulls st) = num_rows t \<and> length (indices st) = num_rows t
      \<and> errors st = pattern_errors ev t pre
      \<and> vals st = first_seen (used_values ev t [] pre)
      \<and> (\<forall>i < num_rows t. row_ok ev t pre st i))"

section \<open>An evaluator and a sanitizer for the examples\<close>

text \<open>
  Conditions on the numbers of the first column, as \<open>EQ\<close> and \<open>GT\<close> of the module's
  tests, and a regular expression that does not compile, as in \<open>test_regex_errors\<close>.
\<close>

datatype sample_condition = NumberIs int | NumberIsGreaterThan int | TextIsRegex string

definition first_column :: "int table \<Rightarrow> int list" where
  "first_column t = (case columns t of (name, PlainArray xs) # cs \<Rightarrow> xs | _ \<Rightarrow> [])"

fun sample_mask :: "(int, sample_condition) evaluator" where
  "sample_mask t (NumberIs v) = Inr (map (\<lambda>x. x = v) (first_column t))"
| "sample_mask t (NumberIsGreaterThan v) = Inr (map (\<lambda>x. x > v) (first_column t))"
| "sample_mask t (TextIsRegex p) =
     Inl (ReError p (''no argument for repetition operator: '' @ p))"

definition table_A :: "int table" where
  "table_A = \<lparr> num_rows = 3, columns = [(''A'', PlainArray [1, 2, 3])] \<rparr>"

definition table_AB :: "int table" where
  "table_AB =
     \<lparr> num_rows = 3, columns = [(''A'', PlainArray [1, 2, 3]), (''B'', PlainArray [2, 3, 4])] \<rparr>"

definition table_empty :: "int table" where
  "table_empty = \<lparr> num_rows = 0, columns = [(''A'', PlainArray [])] \<rparr>"

definition rule :: "string \<Rightarrow> sample_condition \<Rightarrow> sample_condition label_spec" where
  "rule v c = \<lparr> label_value = v, condition = Some c \<rparr>"

definition rules_priority :: "sample_condition label_spec list" where
  "rules_priority = [rule ''a'' (NumberIs 2), rule ''b'' (NumberIsGreaterThan 1)]"

definition rules_bad :: "sample_condition label_spec list" where
  "rules_bad = [rule ''a'' (TextIsRegex ''*''), rule ''b'' (TextIsRegex ''+'')]"

definition rules_late :: "sample_condition label_spec list" where
  "rules_late = [rule ''a'' (NumberIs 4), rule ''b'' (NumberIs 2), rule ''a'' (NumberIs 3)]"

definition rules_twice :: "sample_condition label_spec list" where
  "rules_twice = [rule ''a'' (NumberIs 2), rule ''a'' (NumberIs 3)]"

definition label_a :: "int array" where
  "label_a = DictArray \<lparr> dict_indices = [0, 0, 0], dictionary = [''a''],
                          dict_mask = [True, False, True] \<rparr>"

text \<open>
  A sanitizer that removes carriage returns from the names and warns when it changed
  one, as \<open>test_clean_colname\<close> expects of the library's.
\<close>

definition sample_clean :: "unit sanitizer" where
  "sample_clean names existing settings =
     (let cleaned = map (filter (\<lambda>c. c \<noteq> CHR 0x0D)) names
      in (cleaned,
          if cleaned = names then []
          else [I18nMessage ''util.colnames.warnings.ascii_cleaned''
                  [(''n_columns'', Num 1), (''first_colname'', Str (hd cleaned))]]))"

section \<open>Lists, masks and the dictionary lookup\<close>

lemma put_mask_length: "length m = length xs \<Longrightarrow> length (put_mask xs m v) = length xs"
  by (simp add: put_mask_def)

lemma put_mask_nth:
  "length m = length xs \<Longrightarrow> i < length xs \<Longrightarrow> put_mask xs m v ! i = (if m ! i then v else xs ! i)"
  by (simp add: put_mask_def)

lemma list_index_None: "list_index xs v = None \<longleftrightarrow> v \<notin> set xs"
  by (induction xs) auto

lemma list_index_Some: "list_index xs v = Some i \<Longrightarrow> i < length xs \<and> xs ! i = v"
  by (induction xs arbitrary: i) (auto split: if_splits)

lemma list_index_nth: "distinct xs \<Longrightarrow> i < length xs \<Longrightarrow> list_index xs (xs ! i) = Some i"
proof (induction xs arbitrary: i)
  case Nil
  then show ?case by simp
next
  case (Cons x xs)
  show ?case
  proof (cases i)
    case 0
    then show ?thesis by simp
  next
    case (Suc j)
    with Cons.prems have j: "j < length xs" and d: "distinct xs" and x: "x \<notin> set xs"
      by simp_all
    from j x have "x \<noteq> xs ! j" using nth_mem by metis
    with Cons.IH [OF d j] Suc show ?thesis by simp
  qed
qed

lemma resolve_index_vals:
  "resolve_index vs v = (k, vs') \<Longrightarrow> vs' = (if v \<in> set vs then vs else vs @ [v])"
  by (cases "list_index vs v")
     (auto simp: resolve_index_def list_index_None dest: list_index_Some)

lemma resolve_index_at:
  "resolve_index vs v = (k, vs') \<Longrightarrow> k < length vs' \<and> vs' ! k = v"
  by (auto simp: resolve_index_def dest: list_index_Some split: option.splits)

lemma np_and_fit:
  "length m = length ns \<Longrightarrow> np_and m ns = Inr (map2 (\<lambda>x y. x \<and> y) m ns)"
  by (simp add: np_and_def)

lemma np_and_implies:
  assumes "np_and m ns = Inr np" and "length np = length ns" and "i < length ns" and "np ! i"
  shows "ns ! i"
proof (cases "length m = length ns")
  case True
  with assms show ?thesis by (auto simp: np_and_def)
next
  case False
  note neq = this
  show ?thesis
  proof (cases "length m = 1")
    case True
    with neq assms show ?thesis by (auto simp: np_and_def)
  next
    case False
    show ?thesis
    proof (cases "length ns = 1")
      case True
      with neq \<open>length m \<noteq> 1\<close> assms(1) have "np = map (\<lambda>x. x \<and> hd ns) m"
        by (simp add: np_and_def)
      with assms(2) neq show ?thesis by simp
    next
      case False
      with neq \<open>length m \<noteq> 1\<close> assms(1) show ?thesis
        by (simp add: np_and_def)
    qed
  qed
qed

lemma np_any_iff: "np_any m \<longleftrightarrow> (\<exists>i<length m. m ! i)"
proof -
  have "np_any m \<longleftrightarrow> True \<in> set m"
    by (auto simp: np_any_def list_ex_iff)
  also have "\<dots> \<longleftrightarrow> (\<exists>i<length m. m ! i = True)"
    by (rule in_set_conv_nth)
  finally show ?thesis by simp
qed

lemma list_index_mem: "v \<in> set xs \<Longrightarrow> \<exists>i. list_index xs v = Some i"
  using list_index_None [of xs v] by (cases "list_index xs v") auto

section \<open>Skipping the write of index 0\<close>

lemma null_rows_zero_init: "null_rows_zero (init_state t)"
  by (simp add: null_rows_zero_def init_state_def)

lemma write_rows_unfold:
  assumes "resolve_index (vals st) v = (k, vs')"
  shows "write_rows st np v =
           (if length np \<noteq> length (nulls st) then Inl IndexError
            else Inr (st\<lparr> vals := vs',
                          nulls := put_mask (nulls st) np False,
                          indices := (if k > 0 then put_mask (indices st) np k
                                      else indices st) \<rparr>))"
  using assms by (simp add: write_rows_def)

lemma naive_write_rows_unfold:
  assumes "resolve_index (vals st) v = (k, vs')"
  shows "naive_write_rows st np v =
           (if length np \<noteq> length (nulls st) then Inl IndexError
            else Inr (st\<lparr> vals := vs',
                          nulls := put_mask (nulls st) np False,
                          indices := put_mask (indices st) np k \<rparr>))"
  using assms by (simp add: naive_write_rows_def)

lemma put_mask_zero_id:
  assumes "null_rows_zero st" and "below_nulls np st" and "length np = length (nulls st)"
  shows "put_mask (indices st) np 0 = indices st"
proof (rule nth_equalityI)
  show "length (put_mask (indices st) np 0) = length (indices st)"
    using assms by (simp add: put_mask_length null_rows_zero_def)
next
  fix i assume "i < length (put_mask (indices st) np 0)"
  with assms have i: "i < length (nulls st)" and l: "length np = length (indices st)"
    by (simp_all add: put_mask_length null_rows_zero_def)
  from i l assms(1) have "put_mask (indices st) np 0 ! i = (if np ! i then 0 else indices st ! i)"
    by (simp add: put_mask_nth null_rows_zero_def)
  moreover from assms(1,2) i have "np ! i \<longrightarrow> indices st ! i = 0"
    by (simp add: null_rows_zero_def below_nulls_def)
  ultimately show "put_mask (indices st) np 0 ! i = indices st ! i" by simp
qed

lemma write_rows_rows:
  assumes w: "write_rows st np v = Inr st'"
    and z: "null_rows_zero st" and b: "below_nulls np st"
  shows "\<exists>k. resolve_index (vals st) v = (k, vals st')
            \<and> length np = length (nulls st)
            \<and> nulls st' = put_mask (nulls st) np False
            \<and> indices st' = put_mask (indices st) np k
            \<and> errors st' = errors st"
proof -
  obtain k vs' where r: "resolve_index (vals st) v = (k, vs')"
    by (cases "resolve_index (vals st) v")
  from w have len: "length np = length (nulls st)"
    by (simp add: write_rows_unfold [OF r] split: if_splits)
  from w len have st': "st' = st\<lparr> vals := vs', nulls := put_mask (nulls st) np False,
      indices := (if k > 0 then put_mask (indices st) np k else indices st) \<rparr>"
    by (simp add: write_rows_unfold [OF r])
  have "indices st' = put_mask (indices st) np k"
  proof (cases "k > 0")
    case True
    with st' show ?thesis by simp
  next
    case False
    with st' put_mask_zero_id [OF z b len] show ?thesis by simp
  qed
  with st' r len show ?thesis by simp
qed

lemma write_rows_naive:
  assumes "null_rows_zero st" and "below_nulls np st"
  shows "write_rows st np v = naive_write_rows st np v"
proof -
  obtain k vs' where r: "resolve_index (vals st) v = (k, vs')"
    by (cases "resolve_index (vals st) v")
  show ?thesis
  proof (cases "length np = length (nulls st)")
    case True
    with put_mask_zero_id [OF assms True] show ?thesis
      by (simp add: write_rows_unfold [OF r] naive_write_rows_unfold [OF r])
  next
    case False
    then show ?thesis
      by (simp add: write_rows_unfold [OF r] naive_write_rows_unfold [OF r])
  qed
qed

lemma write_rows_wrong_length:
  "length np \<noteq> length (nulls st) \<Longrightarrow> write_rows st np v = naive_write_rows st np v"
  by (simp add: write_rows_def naive_write_rows_def split: prod.splits)

lemma np_and_below:
  assumes "np_and m (nulls st) = Inr np" and "length np = length (nulls st)"
  shows "below_nulls np st"
  unfolding below_nulls_def using np_and_implies [OF assms] by blast

lemma write_rows_null_zero:
  assumes w: "write_rows st np v = Inr st'"
    and z: "null_rows_zero st" and b: "below_nulls np st"
  shows "null_rows_zero st'"
proof -
  from write_rows_rows [OF w z b] obtain k where
    len: "length np = length (nulls st)" and
    n: "nulls st' = put_mask (nulls st) np False" and
    i: "indices st' = put_mask (indices st) np k"
    by blast
  from z have li: "length (indices st) = length (nulls st)"
    by (simp add: null_rows_zero_def)
  show ?thesis
    unfolding null_rows_zero_def
  proof (intro conjI allI impI)
    show "length (indices st') = length (nulls st')"
      using n i len li by (simp add: put_mask_length)
  next
    fix j assume j: "j < length (nulls st')" and nj: "nulls st' ! j"
    from j n len have j': "j < length (nulls st)" by (simp add: put_mask_length)
    from nj n len j' have "\<not> np ! j \<and> nulls st ! j"
      by (simp add: put_mask_nth split: if_splits)
    with i len li j' z show "indices st' ! j = 0"
      by (simp add: put_mask_nth null_rows_zero_def)
  qed
qed

lemma loop_body_null_zero:
  assumes "loop_body ev t st spec = Inr st'" and "null_rows_zero st"
  shows "null_rows_zero st'"
proof (cases "condition spec")
  case None
  with assms show ?thesis by (simp add: loop_body_def)
next
  case (Some c)
  show ?thesis
  proof (cases "ev t c")
    case (Inl err)
    with Some assms show ?thesis by (auto simp: loop_body_def null_rows_zero_def)
  next
    case (Inr m)
    show ?thesis
    proof (cases "np_and m (nulls st)")
      case (Inl e)
      with Some Inr assms show ?thesis by (simp add: loop_body_def)
    next
      case np: (Inr np)
      show ?thesis
      proof (cases "np_any np")
        case False
        with Some Inr np assms show ?thesis by (simp add: loop_body_def)
      next
        case True
        with Some Inr np assms have w: "write_rows st np (label_value spec) = Inr st'"
          by (simp add: loop_body_def)
        then have "length np = length (nulls st)"
          by (simp add: write_rows_def split: prod.splits if_splits)
        from write_rows_null_zero [OF w assms(2) np_and_below [OF np this]]
        show ?thesis .
      qed
    qed
  qed
qed

lemma loop_body_naive:
  assumes "null_rows_zero st"
  shows "loop_body ev t st spec = naive_loop_body ev t st spec"
proof (cases "condition spec")
  case None
  then show ?thesis by (simp add: loop_body_def naive_loop_body_def)
next
  case (Some c)
  show ?thesis
  proof (cases "ev t c")
    case (Inl err)
    with Some show ?thesis by (simp add: loop_body_def naive_loop_body_def)
  next
    case (Inr m)
    show ?thesis
    proof (cases "np_and m (nulls st)")
      case (Inl e)
      with Some Inr show ?thesis by (simp add: loop_body_def naive_loop_body_def)
    next
      case np: (Inr np)
      have "write_rows st np (label_value spec) = naive_write_rows st np (label_value spec)"
      proof (cases "length np = length (nulls st)")
        case True
        from write_rows_naive [OF assms np_and_below [OF np True]] show ?thesis .
      next
        case False
        then show ?thesis by (rule write_rows_wrong_length)
      qed
      with Some Inr np show ?thesis by (simp add: loop_body_def naive_loop_body_def)
    qed
  qed
qed

lemma label_loop_naive:
  "null_rows_zero st \<Longrightarrow> label_loop ev t st specs = naive_label_loop ev t st specs"
proof (induction specs arbitrary: st)
  case Nil
  then show ?case by simp
next
  case (Cons spec specs)
  show ?case
  proof (cases "loop_body ev t st spec")
    case (Inl e)
    with loop_body_naive [OF Cons.prems, of ev t spec]
    have "naive_loop_body ev t st spec = Inl e" by simp
    with Inl show ?thesis by simp
  next
    case (Inr st')
    with loop_body_naive [OF Cons.prems, of ev t spec]
    have n: "naive_loop_body ev t st spec = Inr st'" by simp
    from loop_body_null_zero [OF Inr Cons.prems] have "null_rows_zero st'" .
    from Cons.IH [OF this] Inr n show ?thesis by simp
  qed
qed

text \<open>
  C9. Skipping the write of the indices when the resolved index is 0 changes nothing:
  the function returns the same indices, null bitmap, dictionary and errors (or raises
  the same exception) as the variant that writes the resolved index for every row
  selected by the effective mask, for every evaluator, table and rule list.
\<close>

theorem skip_index_zero_equivalent:
  "generate_label_column ev t specs = naive_generate_label_column ev t specs"
  by (simp add: generate_label_column_def naive_generate_label_column_def
      label_loop_naive [OF null_rows_zero_init])

theorem skip_index_zero_equivalent_witness:
  "generate_label_column sample_mask table_A
       [rule ''a'' (NumberIs 2), rule ''b'' (NumberIsGreaterThan 1)]
     = naive_generate_label_column sample_mask table_A
         [rule ''a'' (NumberIs 2), rule ''b'' (NumberIsGreaterThan 1)]"
  by (rule skip_index_zero_equivalent)

section \<open>The state after a prefix of the rules\<close>

lemma find_append:
  "find P (xs @ ys) = (case find P xs of None \<Rightarrow> find P ys | Some x \<Rightarrow> Some x)"
  by (induction xs) simp_all

lemma first_match_snoc:
  "first_match ev t (pre @ [s]) i =
     (case first_match ev t pre i of
        Some v \<Rightarrow> Some v
      | None \<Rightarrow> if matches ev t s i then Some (label_value s) else None)"
  by (simp add: first_match_def find_append split: option.splits)

lemma first_match_None:
  "first_match ev t pre i = None \<longleftrightarrow> \<not> list_ex (\<lambda>p. matches ev t p i) pre"
  by (auto simp: first_match_def find_None_iff list_ex_iff)

lemma pattern_errors_snoc:
  "pattern_errors ev t (pre @ [s]) = pattern_errors ev t pre @ pattern_errors ev t [s]"
  by (simp add: pattern_errors_def)

lemma used_values_snoc:
  "used_values ev t p0 (pre @ [s]) =
     used_values ev t p0 pre
       @ (if effective_rows ev t (p0 @ pre) s = [] then [] else [label_value s])"
  by (induction pre arbitrary: p0) simp_all

lemma effective_rows_Nil:
  "effective_rows ev t pre s = [] \<longleftrightarrow>
     (\<forall>i < num_rows t. matches ev t s i \<longrightarrow> first_match ev t pre i \<noteq> None)"
  by (auto simp: effective_rows_def filter_empty_conv first_match_None)

lemma first_seen_snoc:
  "first_seen (xs @ [v]) = (if v \<in> set xs then first_seen xs else first_seen xs @ [v])"
  by (simp add: first_seen_def)

lemma set_first_seen: "set (first_seen xs) = set xs"
  by (simp add: first_seen_def)

lemma distinct_first_seen: "distinct (first_seen xs)"
  by (simp add: first_seen_def)

lemma row_null_iff:
  "row_ok ev t pre st i \<Longrightarrow> nulls st ! i \<longleftrightarrow> first_match ev t pre i = None"
  by (auto simp: row_ok_def split: if_splits)

lemma after_rules_init: "after_rules ev t [] (init_state t)"
  by (simp add: after_rules_def init_state_def pattern_errors_def first_seen_def row_ok_def
      first_match_def)

lemma row_ok_skip:
  assumes "row_ok ev t pre st i" and "matches ev t s i \<longrightarrow> \<not> nulls st ! i"
  shows "row_ok ev t (pre @ [s]) (st\<lparr> errors := e \<rparr>) i"
  using assms by (auto simp: row_ok_def first_match_snoc)

lemma after_rules_skip:
  assumes inv: "after_rules ev t pre st"
    and none: "\<forall>i < num_rows t. matches ev t s i \<longrightarrow> \<not> nulls st ! i"
  shows "after_rules ev t (pre @ [s]) (st\<lparr> errors := errors st @ pattern_errors ev t [s] \<rparr>)"
proof -
  from inv have rows: "\<forall>i < num_rows t. row_ok ev t pre st i"
    by (simp add: after_rules_def)
  have "effective_rows ev t pre s = []"
    unfolding effective_rows_Nil
  proof (intro allI impI)
    fix i assume "i < num_rows t" and "matches ev t s i"
    with none rows have "\<not> nulls st ! i" and "row_ok ev t pre st i" by simp_all
    then show "first_match ev t pre i \<noteq> None" using row_null_iff by metis
  qed
  then have used: "used_values ev t [] (pre @ [s]) = used_values ev t [] pre"
    using used_values_snoc [of ev t "[]" pre s] by simp
  have "\<forall>i < num_rows t.
          row_ok ev t (pre @ [s]) (st\<lparr> errors := errors st @ pattern_errors ev t [s] \<rparr>) i"
    using rows none row_ok_skip by metis
  with inv used show ?thesis
    by (simp add: after_rules_def pattern_errors_snoc)
qed

lemma after_rules_null_zero: "after_rules ev t pre st \<Longrightarrow> null_rows_zero st"
  by (simp add: after_rules_def null_rows_zero_def row_ok_def)

lemma row_ok_write:
  assumes old: "row_ok ev t pre st i"
    and n': "nulls st' ! i = (if b \<and> nulls st ! i then False else nulls st ! i)"
    and i': "indices st' ! i = (if b \<and> nulls st ! i then k else indices st ! i)"
    and k: "k < length (vals st')" "vals st' ! k = label_value s"
    and ext: "vals st' = vals st \<or> vals st' = vals st @ [label_value s]"
    and ms: "matches ev t s i = b"
  shows "row_ok ev t (pre @ [s]) st' i"
proof (cases "nulls st ! i")
  case True
  with old have fm: "first_match ev t pre i = None" by (simp add: row_ok_def)
  from True old have z: "indices st ! i = 0" by (simp add: row_ok_def)
  show ?thesis
  proof (cases b)
    case True
    with \<open>nulls st ! i\<close> n' i' k fm ms show ?thesis
      by (simp add: row_ok_def first_match_snoc)
  next
    case False
    with \<open>nulls st ! i\<close> n' i' z fm ms show ?thesis
      by (simp add: row_ok_def first_match_snoc)
  qed
next
  case False
  with old have lt: "indices st ! i < length (vals st)"
    and fm: "first_match ev t pre i = Some (vals st ! (indices st ! i))"
    by (simp_all add: row_ok_def)
  from ext lt have "vals st' ! (indices st ! i) = vals st ! (indices st ! i)"
    and "indices st ! i < length (vals st')"
    by (auto simp: nth_append)
  with False n' i' fm show ?thesis
    by (simp add: row_ok_def first_match_snoc)
qed

lemma after_rules_write:
  assumes inv: "after_rules ev t pre st"
    and c: "condition s = Some c" and m: "ev t c = Inr m" and lm: "length m = num_rows t"
    and np: "np = map2 (\<lambda>x y. x \<and> y) m (nulls st)"
    and any: "np_any np"
    and w: "write_rows st np (label_value s) = Inr st'"
  shows "after_rules ev t (pre @ [s]) st'"
proof -
  let ?v = "label_value s"
  from inv have ln: "length (nulls st) = num_rows t" and li: "length (indices st) = num_rows t"
    and rows: "\<forall>i < num_rows t. row_ok ev t pre st i"
    and vs: "vals st = first_seen (used_values ev t [] pre)"
    and es: "errors st = pattern_errors ev t pre"
    by (simp_all add: after_rules_def)
  from np lm ln have lnp: "length np = num_rows t" by simp
  have mm: "\<And>i. matches ev t s i = m ! i"
    using c m by (simp add: matches_def)
  have npi: "\<And>i. i < num_rows t \<Longrightarrow> np ! i = (m ! i \<and> nulls st ! i)"
    using np lm ln by simp
  have below: "below_nulls np st"
    using npi ln by (simp add: below_nulls_def)
  from write_rows_rows [OF w after_rules_null_zero [OF inv] below] obtain k where
    r: "resolve_index (vals st) ?v = (k, vals st')" and
    n': "nulls st' = put_mask (nulls st) np False" and
    i': "indices st' = put_mask (indices st) np k" and
    e': "errors st' = errors st"
    by blast
  from resolve_index_at [OF r] have k: "k < length (vals st')" "vals st' ! k = ?v"
    by simp_all
  from resolve_index_vals [OF r]
  have v': "vals st' = (if ?v \<in> set (vals st) then vals st else vals st @ [?v])" .
  then have ext: "vals st' = vals st \<or> vals st' = vals st @ [?v]" by simp
  from any obtain j where j: "j < length np" "np ! j"
    using np_any_iff by metis
  with lnp npi have "j < num_rows t" and "matches ev t s j" and "nulls st ! j"
    by (simp_all add: mm)
  moreover from this rows have "first_match ev t pre j = None"
    using row_null_iff by metis
  ultimately have "effective_rows ev t pre s \<noteq> []"
    unfolding effective_rows_Nil by blast
  then have "used_values ev t [] (pre @ [s]) = used_values ev t [] pre @ [?v]"
    using used_values_snoc [of ev t "[]" pre s] by simp
  with vs v' have used: "vals st' = first_seen (used_values ev t [] (pre @ [s]))"
    by (simp add: first_seen_snoc set_first_seen)
  from c m have "pattern_errors ev t [s] = []" by (simp add: pattern_errors_def)
  with e' es have errs: "errors st' = pattern_errors ev t (pre @ [s])"
    by (simp add: pattern_errors_snoc)
  have "\<forall>i < num_rows t. row_ok ev t (pre @ [s]) st' i"
  proof (intro allI impI)
    fix i assume i: "i < num_rows t"
    from i n' lnp ln npi
    have a: "nulls st' ! i = (if m ! i \<and> nulls st ! i then False else nulls st ! i)"
      by (simp add: put_mask_nth)
    from i i' lnp li npi
    have b: "indices st' ! i = (if m ! i \<and> nulls st ! i then k else indices st ! i)"
      by (simp add: put_mask_nth)
    from i rows have "row_ok ev t pre st i" by simp
    from row_ok_write [OF this a b k ext mm]
    show "row_ok ev t (pre @ [s]) st' i" .
  qed
  moreover from n' i' lnp ln li have "length (nulls st') = num_rows t"
    and "length (indices st') = num_rows t"
    by (simp_all add: put_mask_length)
  ultimately show ?thesis using used errs by (simp add: after_rules_def)
qed

lemma write_rows_returns:
  "length np = length (nulls st) \<Longrightarrow> \<exists>st'. write_rows st np v = Inr st'"
  by (simp add: write_rows_def split: prod.splits)

lemma loop_body_step:
  assumes inv: "after_rules ev t pre st" and fit: "mask_fits ev t s"
  shows "\<exists>st'. loop_body ev t st s = Inr st' \<and> after_rules ev t (pre @ [s]) st'"
proof (cases "condition s")
  case None
  then have "pattern_errors ev t [s] = []" by (simp add: pattern_errors_def)
  moreover have "\<And>i. \<not> matches ev t s i"
    using None by (simp add: matches_def)
  ultimately have "after_rules ev t (pre @ [s]) st"
    using after_rules_skip [OF inv, of s] by simp
  with None show ?thesis by (simp add: loop_body_def)
next
  case (Some c)
  show ?thesis
  proof (cases "ev t c")
    case (Inl err)
    with Some have "pattern_errors ev t [s] = [invalid_regex err]"
      by (simp add: pattern_errors_def)
    moreover have "\<And>i. \<not> matches ev t s i"
      using Some Inl by (simp add: matches_def)
    ultimately
    have "after_rules ev t (pre @ [s]) (st\<lparr> errors := errors st @ [invalid_regex err] \<rparr>)"
      using after_rules_skip [OF inv, of s] by simp
    with Some Inl show ?thesis by (simp add: loop_body_def)
  next
    case (Inr m)
    with Some fit have lm: "length m = num_rows t" by (simp add: mask_fits_def)
    from inv have ln: "length (nulls st) = num_rows t" by (simp add: after_rules_def)
    define np where "np = map2 (\<lambda>x y. x \<and> y) m (nulls st)"
    have mm: "\<And>i. matches ev t s i = m ! i"
      using Some Inr by (simp add: matches_def)
    from lm ln have npa: "np_and m (nulls st) = Inr np"
      by (simp add: np_and_fit np_def)
    show ?thesis
    proof (cases "np_any np")
      case False
      have "\<forall>i < num_rows t. matches ev t s i \<longrightarrow> \<not> nulls st ! i"
      proof (intro allI impI)
        fix i assume i: "i < num_rows t" and mi: "matches ev t s i"
        from False have "\<not> (\<exists>i<length np. np ! i)" using np_any_iff by metis
        with i lm ln have "\<not> np ! i" by (simp add: np_def)
        with i lm ln mi show "\<not> nulls st ! i"
          by (simp add: np_def mm)
      qed
      moreover from Some Inr have "pattern_errors ev t [s] = []"
        by (simp add: pattern_errors_def)
      ultimately have "after_rules ev t (pre @ [s]) st"
        using after_rules_skip [OF inv, of s] by simp
      with Some Inr npa False show ?thesis by (simp add: loop_body_def)
    next
      case True
      from lm ln have "length np = length (nulls st)" by (simp add: np_def)
      from write_rows_returns [OF this] obtain st' where
        w: "write_rows st np (label_value s) = Inr st'" by blast
      from after_rules_write [OF inv Some Inr lm np_def True w]
      have "after_rules ev t (pre @ [s]) st'" .
      with Some Inr npa True w show ?thesis by (simp add: loop_body_def)
    qed
  qed
qed

lemma label_loop_after:
  assumes "after_rules ev t pre st" and "masks_fit ev t specs"
  shows "\<exists>st'. label_loop ev t st specs = Inr st' \<and> after_rules ev t (pre @ specs) st'"
  using assms
proof (induction specs arbitrary: pre st)
  case Nil
  then show ?case by simp
next
  case (Cons s specs)
  from Cons.prems have fit: "mask_fits ev t s" and fits: "masks_fit ev t specs"
    by (simp_all add: masks_fit_def)
  from loop_body_step [OF Cons.prems(1) fit] obtain st1 where
    b: "loop_body ev t st s = Inr st1" and i1: "after_rules ev t (pre @ [s]) st1"
    by blast
  from Cons.IH [OF i1 fits] obtain st' where
    "label_loop ev t st1 specs = Inr st'" and "after_rules ev t ((pre @ [s]) @ specs) st'"
    by blast
  with b show ?case by simp
qed

lemma label_loop_result:
  assumes "masks_fit ev t specs"
  shows "\<exists>st. label_loop ev t (init_state t) specs = Inr st \<and> after_rules ev t specs st"
  using label_loop_after [OF after_rules_init assms] by simp

section \<open>The column merger and the empty target name\<close>

text \<open>
  C6. When the target column name is empty, \<open>render\<close> writes the input table as it is
  and returns no errors; no column is added and no rule is evaluated, whatever the rule
  list and the evaluator are.
\<close>

theorem render_empty_colname:
  "colname ps = [] \<Longrightarrow> render ev san t ps settings = Inr (Some t, [])"
  by (simp add: render_def)

theorem render_empty_colname_witness:
  "colname \<lparr> colname = [], labels = [rule ''a'' (TextIsRegex ''*'')] \<rparr> = []
   \<and> render sample_mask sample_clean table_A
         \<lparr> colname = [], labels = [rule ''a'' (TextIsRegex ''*'')] \<rparr> ()
       = Inr (Some table_A, [])"
  using render_empty_colname
    [of "\<lparr> colname = [], labels = [rule ''a'' (TextIsRegex ''*'')] \<rparr>"
        sample_mask sample_clean table_A "()"]
  by simp

text \<open>
  C7. When the name is the name of a column of the table and the array has the table's
  row count, \<open>_add_column\<close> returns no warnings and a table that differs from the input
  only at the first position of that name, which now holds the array under the same
  name: the column names, their order, the row count and every other column are those
  of the input. The result is a new table value; the input table is not changed.
\<close>

theorem add_column_replace:
  assumes "name \<in> set (column_names t)" and "array_len data = num_rows t"
  shows "\<exists>i t'. list_index (column_names t) name = Some i
           \<and> add_column san t name data settings = Inr (t', [])
           \<and> t' = t\<lparr> columns := (columns t)[i := (name, data)] \<rparr>
           \<and> column_names t' = column_names t
           \<and> num_rows t' = num_rows t
           \<and> columns t' ! i = (name, data)
           \<and> (\<forall>j. j \<noteq> i \<longrightarrow> columns t' ! j = columns t ! j)"
proof -
  from assms(1) obtain i where i: "list_index (column_names t) name = Some i"
    using list_index_mem by metis
  from list_index_Some [OF i] have len: "i < length (columns t)"
    and nm: "column_names t ! i = name"
    by (simp_all add: column_names_def)
  let ?t' = "t\<lparr> columns := (columns t)[i := (name, data)] \<rparr>"
  have run: "add_column san t name data settings = Inr (?t', [])"
    using assms i by (simp add: add_column_def set_column_def)
  have "map fst ((columns t)[i := (name, data)]) = (map fst (columns t))[i := name]"
    by (simp add: map_update)
  also have "\<dots> = map fst (columns t)"
    using nm list_update_id [of "map fst (columns t)" i] by (simp add: column_names_def)
  finally have names: "column_names ?t' = column_names t"
    by (simp add: column_names_def)
  from i run names len show ?thesis by simp
qed

theorem add_column_replace_witness:
  "''A'' \<in> set (column_names table_AB) \<and> array_len label_a = num_rows table_AB
   \<and> add_column sample_clean table_AB ''A'' label_a ()
       = Inr (\<lparr> num_rows = 3, columns = [(''A'', label_a), (''B'', PlainArray [2, 3, 4])] \<rparr>, [])"
  using add_column_replace [of "''A''" table_AB label_a sample_clean "()"]
  by (simp add: column_names_def table_AB_def label_a_def)

section \<open>The label assembler\<close>

lemma masks_fit_take: "masks_fit ev t specs \<Longrightarrow> masks_fit ev t (take k specs)"
  by (auto simp: masks_fit_def list_all_iff dest: in_set_takeD)

lemma generate_result:
  assumes "masks_fit ev t specs"
  shows "\<exists>st. label_loop ev t (init_state t) specs = Inr st
           \<and> after_rules ev t specs st
           \<and> generate_label_column ev t specs
               = Inr (from_arrays (indices st) (vals st) (nulls st), pattern_errors ev t specs)"
proof -
  from label_loop_result [OF assms] obtain st where
    l: "label_loop ev t (init_state t) specs = Inr st" and a: "after_rules ev t specs st"
    by blast
  from a have "errors st = pattern_errors ev t specs" by (simp add: after_rules_def)
  with l a show ?thesis by (simp add: generate_label_column_def)
qed

lemma to_pylist_after:
  assumes "after_rules ev t specs st"
  shows "to_pylist (from_arrays (indices st) (vals st) (nulls st))
           = map (first_match ev t specs) [0..<num_rows t]"
proof (rule nth_equalityI)
  from assms show "length (to_pylist (from_arrays (indices st) (vals st) (nulls st)))
      = length (map (first_match ev t specs) [0..<num_rows t])"
    by (simp add: to_pylist_def from_arrays_def after_rules_def)
next
  fix i assume "i < length (to_pylist (from_arrays (indices st) (vals st) (nulls st)))"
  with assms have i: "i < num_rows t"
    by (simp add: to_pylist_def from_arrays_def after_rules_def)
  with assms have "row_ok ev t specs st i" and "length (nulls st) = num_rows t"
    and "length (indices st) = num_rows t"
    by (simp_all add: after_rules_def)
  with i show "to_pylist (from_arrays (indices st) (vals st) (nulls st)) ! i
      = map (first_match ev t specs) [0..<num_rows t] ! i"
    by (simp add: to_pylist_def from_arrays_def row_ok_def)
qed

lemma first_match_keeps:
  assumes "first_match ev t (take k specs) i = Some v"
  shows "first_match ev t specs i = Some v"
proof -
  have "first_match ev t (xs @ ys) i = Some v" if "first_match ev t xs i = Some v" for xs ys
    using that by (auto simp: first_match_def find_append)
  from this [OF assms, of "drop k specs"] show ?thesis by simp
qed

text \<open>
  C1. First match wins. When the evaluator gives one mask entry per row, the assembler
  returns, and every row of the output holds the value of the first rule, in input
  order, whose condition is present, evaluates without error and is true at the row;
  a row that no such rule matches is null. A row that is labelled after the first
  \<open>k\<close> rules, for any \<open>k\<close>, has the same label in the output: no later rule changes it.
\<close>

theorem first_match_wins:
  assumes "masks_fit ev t specs"
  shows "\<exists>arr errs. generate_label_column ev t specs = Inr (arr, errs)
           \<and> to_pylist arr = map (first_match ev t specs) [0..<num_rows t]
           \<and> (\<forall>k \<le> length specs. \<exists>st. label_loop ev t (init_state t) (take k specs) = Inr st
                 \<and> (\<forall>i < num_rows t. \<not> nulls st ! i \<longrightarrow>
                       to_pylist arr ! i = Some (vals st ! (indices st ! i))))"
proof -
  from generate_result [OF assms] obtain st where
    a: "after_rules ev t specs st" and
    g: "generate_label_column ev t specs
          = Inr (from_arrays (indices st) (vals st) (nulls st), pattern_errors ev t specs)"
    by blast
  let ?arr = "from_arrays (indices st) (vals st) (nulls st)"
  note rows = to_pylist_after [OF a]
  have "\<exists>sk. label_loop ev t (init_state t) (take k specs) = Inr sk
           \<and> (\<forall>i < num_rows t. \<not> nulls sk ! i \<longrightarrow>
                 to_pylist ?arr ! i = Some (vals sk ! (indices sk ! i)))" for k
  proof -
    from label_loop_result [OF masks_fit_take [OF assms]] obtain sk where
      l: "label_loop ev t (init_state t) (take k specs) = Inr sk" and
      ak: "after_rules ev t (take k specs) sk"
      by blast
    have "to_pylist ?arr ! i = Some (vals sk ! (indices sk ! i))"
      if "i < num_rows t" and "\<not> nulls sk ! i" for i
    proof -
      from that ak have "first_match ev t (take k specs) i = Some (vals sk ! (indices sk ! i))"
        by (simp add: after_rules_def row_ok_def)
      from first_match_keeps [OF this] that(1) rows show ?thesis by simp
    qed
    with l show ?thesis by blast
  qed
  with g rows show ?thesis by blast
qed

theorem first_match_wins_witness:
  "masks_fit sample_mask table_A rules_priority
   \<and> (\<exists>arr errs. generate_label_column sample_mask table_A rules_priority = Inr (arr, errs)
         \<and> to_pylist arr = [None, Some ''a'', Some ''b''])"
proof -
  have f: "masks_fit sample_mask table_A rules_priority"
    by code_simp
  have m: "map (first_match sample_mask table_A rules_priority) [0..<num_rows table_A]
             = [None, Some ''a'', Some ''b'']"
    by code_simp
  from first_match_wins [OF f] m f show ?thesis by auto
qed

text \<open>
  C2. Batch error policy. A rule whose condition fails to evaluate with a pattern error
  adds its message to the errors and the loop goes on, so the assembler returns the
  messages of all such rules, one for each, in rule order. When \<open>render\<close> has called the
  assembler (the target column name is not empty) and these errors are not empty,
  \<open>render\<close> returns exactly them and writes no table.
\<close>

theorem batch_errors:
  assumes "masks_fit ev t (labels ps)" and "colname ps \<noteq> []"
  shows "\<exists>arr. generate_label_column ev t (labels ps)
                  = Inr (arr, pattern_errors ev t (labels ps))
           \<and> (pattern_errors ev t (labels ps) \<noteq> [] \<longrightarrow>
                 render ev san t ps settings = Inr (None, pattern_errors ev t (labels ps)))"
proof -
  from generate_result [OF assms(1)] obtain st :: asm_state where
    g: "generate_label_column ev t (labels ps)
          = Inr (from_arrays (indices st) (vals st) (nulls st), pattern_errors ev t (labels ps))"
    by blast
  with assms(2) show ?thesis by (simp add: render_def)
qed

theorem batch_errors_witness:
  "masks_fit sample_mask table_A (labels \<lparr> colname = ''B'', labels = rules_bad \<rparr>)
   \<and> colname \<lparr> colname = ''B'', labels = rules_bad \<rparr> \<noteq> []
   \<and> pattern_errors sample_mask table_A rules_bad
       = [I18nMessage ''error.invalidRegex''
            [(''value'', Str ''*''),
             (''message'', Str ''no argument for repetition operator: *'')],
          I18nMessage ''error.invalidRegex''
            [(''value'', Str ''+''),
             (''message'', Str ''no argument for repetition operator: +'')]]
   \<and> render sample_mask sample_clean table_A \<lparr> colname = ''B'', labels = rules_bad \<rparr> ()
       = Inr (None, pattern_errors sample_mask table_A rules_bad)"
proof -
  have f: "masks_fit sample_mask table_A (labels \<lparr> colname = ''B'', labels = rules_bad \<rparr>)"
    by code_simp
  have c: "colname \<lparr> colname = ''B'', labels = rules_bad \<rparr> \<noteq> []"
    by simp
  have e: "pattern_errors sample_mask table_A rules_bad
       = [I18nMessage ''error.invalidRegex''
            [(''value'', Str ''*''),
             (''message'', Str ''no argument for repetition operator: *'')],
          I18nMessage ''error.invalidRegex''
            [(''value'', Str ''+''),
             (''message'', Str ''no argument for repetition operator: +'')]]"
    by code_simp
  from batch_errors [OF f c, of sample_clean "()"] e f c show ?thesis by auto
qed

section \<open>The dictionary\<close>

text \<open>
  The effective selection \<open>effective_rows\<close> is stated on the rules alone. In the state
  that the earlier rules leave, it is the rule's mask intersected with the null bitmap,
  which is what line 40 computes.
\<close>

lemma count_list_distinct: "distinct xs \<Longrightarrow> x \<in> set xs \<Longrightarrow> count_list xs x = 1"
  by (induction xs) auto

lemma effective_rows_state:
  assumes inv: "after_rules ev t pre st" and c: "condition s = Some c" and m: "ev t c = Inr m"
  shows "effective_rows ev t pre s = filter (\<lambda>i. m ! i \<and> nulls st ! i) [0..<num_rows t]"
  unfolding effective_rows_def
proof (rule filter_cong [OF refl])
  fix i assume "i \<in> set [0..<num_rows t]"
  then have "i < num_rows t" by simp
  with inv have "row_ok ev t pre st i" by (simp add: after_rules_def)
  from row_null_iff [OF this] have "nulls st ! i \<longleftrightarrow> \<not> list_ex (\<lambda>p. matches ev t p i) pre"
    by (simp add: first_match_None)
  moreover from c m have "matches ev t s i = m ! i" by (simp add: matches_def)
  ultimately show "(matches ev t s i \<and> \<not> list_ex (\<lambda>p. matches ev t p i) pre)
      = (m ! i \<and> nulls st ! i)"
    by simp
qed

lemma used_values_skip:
  assumes "k < length specs" and "effective_rows ev t (take k specs) (specs ! k) = []"
  shows "used_values ev t [] (take (Suc k) specs) = used_values ev t [] (take k specs)"
  using assms used_values_snoc [of ev t "[]" "take k specs" "specs ! k"]
  by (simp add: take_Suc_conv_app_nth)

text \<open>
  C3. Dictionary contents and order. The dictionary of the output lists the values of
  the rules whose effective selection is not empty, each once, in the order of the
  first such rule, which need not be the order of the rules. A rule whose effective
  selection is empty (it matches no row, or only rows that earlier rules have claimed)
  leaves the dictionary as the rules before it left it.
\<close>

theorem dictionary_first_use:
  assumes "masks_fit ev t specs"
  shows "\<exists>arr errs. generate_label_column ev t specs = Inr (arr, errs)
           \<and> dictionary arr = first_seen (used_values ev t [] specs)
           \<and> (\<forall>k < length specs.
                 effective_rows ev t (take k specs) (specs ! k) = [] \<longrightarrow>
                 (\<exists>st st'. label_loop ev t (init_state t) (take k specs) = Inr st
                    \<and> label_loop ev t (init_state t) (take (Suc k) specs) = Inr st'
                    \<and> vals st' = vals st))"
proof -
  from generate_result [OF assms] obtain st where
    a: "after_rules ev t specs st" and
    g: "generate_label_column ev t specs
          = Inr (from_arrays (indices st) (vals st) (nulls st), pattern_errors ev t specs)"
    by blast
  from a have d: "dictionary (from_arrays (indices st) (vals st) (nulls st))
      = first_seen (used_values ev t [] specs)"
    by (simp add: from_arrays_def after_rules_def)
  have "\<exists>sa sb. label_loop ev t (init_state t) (take k specs) = Inr sa
          \<and> label_loop ev t (init_state t) (take (Suc k) specs) = Inr sb
          \<and> vals sb = vals sa"
    if k: "k < length specs" and e: "effective_rows ev t (take k specs) (specs ! k) = []" for k
  proof -
    from label_loop_result [OF masks_fit_take [OF assms]] obtain sa where
      la: "label_loop ev t (init_state t) (take k specs) = Inr sa" and
      aa: "after_rules ev t (take k specs) sa"
      by blast
    from label_loop_result [OF masks_fit_take [OF assms]] obtain sb where
      lb: "label_loop ev t (init_state t) (take (Suc k) specs) = Inr sb" and
      ab: "after_rules ev t (take (Suc k) specs) sb"
      by blast
    from aa ab used_values_skip [OF k e] have "vals sb = vals sa"
      by (simp add: after_rules_def)
    with la lb show ?thesis by blast
  qed
  with g d show ?thesis by blast
qed

theorem dictionary_first_use_witness:
  "masks_fit sample_mask table_A rules_late
   \<and> (\<exists>arr errs. generate_label_column sample_mask table_A rules_late = Inr (arr, errs)
         \<and> dictionary arr = [''b'', ''a''])"
proof -
  have f: "masks_fit sample_mask table_A rules_late"
    by code_simp
  have u: "first_seen (used_values sample_mask table_A [] rules_late) = [''b'', ''a'']"
    by code_simp
  from dictionary_first_use [OF f] u f show ?thesis by auto
qed

lemma claimed_row:
  assumes a: "after_rules ev t specs st" and k: "k < length specs"
    and i: "i \<in> set (effective_rows ev t (take k specs) (specs ! k))"
  shows "\<not> nulls st ! i \<and> list_index (vals st) (label_value (specs ! k)) = Some (indices st ! i)"
proof -
  from i have lt: "i < num_rows t" and mi: "matches ev t (specs ! k) i"
    and no: "first_match ev t (take k specs) i = None"
    by (simp_all add: effective_rows_def first_match_None)
  from mi no have "first_match ev t (take k specs @ [specs ! k]) i = Some (label_value (specs ! k))"
    by (simp add: first_match_snoc)
  with k have "first_match ev t (take (Suc k) specs) i = Some (label_value (specs ! k))"
    by (simp add: take_Suc_conv_app_nth)
  from first_match_keeps [OF this]
  have fm: "first_match ev t specs i = Some (label_value (specs ! k))" .
  from a lt have r: "row_ok ev t specs st i" by (simp add: after_rules_def)
  from r fm have n: "\<not> nulls st ! i"
    by (auto simp: row_ok_def split: if_splits)
  with r fm have b: "indices st ! i < length (vals st)"
    and v: "vals st ! (indices st ! i) = label_value (specs ! k)"
    by (simp_all add: row_ok_def)
  from a have "distinct (vals st)" by (simp add: after_rules_def distinct_first_seen)
  from list_index_nth [OF this b] v n show ?thesis by simp
qed

text \<open>
  C4. Deduplication. When two rules carry the same value and both have a non-empty
  effective selection, the dictionary of the output holds that value exactly once, and
  every row that either rule claims is not null and refers to the position of that one
  entry.
\<close>

theorem same_value_one_entry:
  assumes fit: "masks_fit ev t specs"
    and jk: "j < k" "k < length specs"
    and vj: "label_value (specs ! j) = v" and vk: "label_value (specs ! k) = v"
    and ej: "effective_rows ev t (take j specs) (specs ! j) \<noteq> []"
    and ek: "effective_rows ev t (take k specs) (specs ! k) \<noteq> []"
  shows "\<exists>arr errs d. generate_label_column ev t specs = Inr (arr, errs)
           \<and> count_list (dictionary arr) v = 1
           \<and> list_index (dictionary arr) v = Some d
           \<and> list_all (\<lambda>i. \<not> dict_mask arr ! i \<and> dict_indices arr ! i = d)
                (effective_rows ev t (take j specs) (specs ! j)
                   @ effective_rows ev t (take k specs) (specs ! k))"
proof -
  from generate_result [OF fit] obtain st where
    a: "after_rules ev t specs st" and
    g: "generate_label_column ev t specs
          = Inr (from_arrays (indices st) (vals st) (nulls st), pattern_errors ev t specs)"
    by blast
  from jk have j: "j < length specs" by simp
  from ej obtain r where r: "r \<in> set (effective_rows ev t (take j specs) (specs ! j))"
    by (cases "effective_rows ev t (take j specs) (specs ! j)") auto
  define d where "d = indices st ! r"
  from claimed_row [OF a j r] vj have ix: "list_index (vals st) v = Some d"
    by (simp add: d_def)
  from list_index_Some [OF ix] have "v \<in> set (vals st)" by auto
  moreover from a have "distinct (vals st)" by (simp add: after_rules_def distinct_first_seen)
  ultimately have one: "count_list (vals st) v = 1" by (simp add: count_list_distinct)
  have "\<not> nulls st ! i \<and> indices st ! i = d"
    if "i \<in> set (effective_rows ev t (take j specs) (specs ! j))" for i
    using claimed_row [OF a j that] vj ix by simp
  moreover have "\<not> nulls st ! i \<and> indices st ! i = d"
    if "i \<in> set (effective_rows ev t (take k specs) (specs ! k))" for i
    using claimed_row [OF a jk(2) that] vk ix by simp
  ultimately have "list_all (\<lambda>i. \<not> nulls st ! i \<and> indices st ! i = d)
      (effective_rows ev t (take j specs) (specs ! j)
         @ effective_rows ev t (take k specs) (specs ! k))"
    by (auto simp: list_all_iff)
  with g one ix show ?thesis by (simp add: from_arrays_def)
qed

theorem same_value_one_entry_witness:
  "masks_fit sample_mask table_A rules_twice \<and> (0::nat) < 1 \<and> 1 < length rules_twice
   \<and> label_value (rules_twice ! 0) = ''a'' \<and> label_value (rules_twice ! 1) = ''a''
   \<and> effective_rows sample_mask table_A (take 0 rules_twice) (rules_twice ! 0) = [1]
   \<and> effective_rows sample_mask table_A (take 1 rules_twice) (rules_twice ! 1) = [2]
   \<and> (\<exists>arr errs. generate_label_column sample_mask table_A rules_twice = Inr (arr, errs)
         \<and> count_list (dictionary arr) ''a'' = 1
         \<and> list_index (dictionary arr) ''a'' = Some 0
         \<and> dict_indices arr ! 1 = 0 \<and> dict_indices arr ! 2 = 0
         \<and> \<not> dict_mask arr ! 1 \<and> \<not> dict_mask arr ! 2)"
proof -
  have f: "masks_fit sample_mask table_A rules_twice"
    by code_simp
  have l: "1 < length rules_twice" by code_simp
  have vj: "label_value (rules_twice ! 0) = ''a''" by code_simp
  have vk: "label_value (rules_twice ! 1) = ''a''" by code_simp
  have ej: "effective_rows sample_mask table_A (take 0 rules_twice) (rules_twice ! 0) = [1]"
    by code_simp
  have ek: "effective_rows sample_mask table_A (take 1 rules_twice) (rules_twice ! 1) = [2]"
    by code_simp
  from ej have ej': "effective_rows sample_mask table_A (take 0 rules_twice) (rules_twice ! 0) \<noteq> []"
    by simp
  from ek have ek': "effective_rows sample_mask table_A (take 1 rules_twice) (rules_twice ! 1) \<noteq> []"
    by simp
  from same_value_one_entry [OF f _ l vj vk ej' ek'] obtain arr errs d where
    g: "generate_label_column sample_mask table_A rules_twice = Inr (arr, errs)" and
    c: "count_list (dictionary arr) ''a'' = 1" and
    i: "list_index (dictionary arr) ''a'' = Some d" and
    r: "list_all (\<lambda>i. \<not> dict_mask arr ! i \<and> dict_indices arr ! i = d)
          (effective_rows sample_mask table_A (take 0 rules_twice) (rules_twice ! 0)
             @ effective_rows sample_mask table_A (take 1 rules_twice) (rules_twice ! 1))"
    by auto
  have "generate_label_column sample_mask table_A rules_twice
      = Inr (\<lparr> dict_indices = [0, 0, 0], dictionary = [''a''],
               dict_mask = [True, False, False] \<rparr>, [])"
    by code_simp
  with g have "dictionary arr = [''a'']" by auto
  with i have "d = 0" by simp
  with g c i r ej ek f l vj vk show ?thesis by simp
qed

section \<open>Tables without rows\<close>

lemma used_values_no_rows: "num_rows t = 0 \<Longrightarrow> used_values ev t p specs = []"
  by (induction specs arbitrary: p) (simp_all add: effective_rows_def)

text \<open>
  C5, as amended. For a table with zero rows the assembler returns a column of length 0
  with an empty dictionary, whatever the rules are, together with the messages of the
  rules whose condition fails to evaluate: it returns no errors exactly when no rule
  fails with a pattern error.
\<close>

theorem zero_rows:
  assumes "num_rows t = 0" and "masks_fit ev t specs"
  shows "generate_label_column ev t specs
           = Inr (\<lparr> dict_indices = [], dictionary = [], dict_mask = [] \<rparr>,
                  pattern_errors ev t specs)"
proof -
  from generate_result [OF assms(2)] obtain st where
    a: "after_rules ev t specs st" and
    g: "generate_label_column ev t specs
          = Inr (from_arrays (indices st) (vals st) (nulls st), pattern_errors ev t specs)"
    by blast
  from a assms(1) have "indices st = []" and "nulls st = []" and "vals st = []"
    by (simp_all add: after_rules_def used_values_no_rows first_seen_def)
  with g show ?thesis by (simp add: from_arrays_def)
qed

theorem zero_rows_witness:
  "num_rows table_empty = 0 \<and> masks_fit sample_mask table_empty rules_priority
   \<and> generate_label_column sample_mask table_empty rules_priority
       = Inr (\<lparr> dict_indices = [], dictionary = [], dict_mask = [] \<rparr>, [])"
proof -
  have z: "num_rows table_empty = 0" by (simp add: table_empty_def)
  have f: "masks_fit sample_mask table_empty rules_priority" by code_simp
  have e: "pattern_errors sample_mask table_empty rules_priority = []" by code_simp
  from zero_rows [OF z f] e z f show ?thesis by simp
qed

text \<open>
  The claim as it is written promises no errors for every rule list. A rule whose
  pattern does not compile is reported on a table with zero rows as on any other, and
  \<open>render\<close> then writes no table.
\<close>

theorem zero_rows_counterexample:
  "num_rows table_empty = 0
   \<and> generate_label_column sample_mask table_empty [rule ''a'' (TextIsRegex ''*'')]
       = Inr (\<lparr> dict_indices = [], dictionary = [], dict_mask = [] \<rparr>,
              [I18nMessage ''error.invalidRegex''
                 [(''value'', Str ''*''),
                  (''message'', Str ''no argument for repetition operator: *'')]])
   \<and> render sample_mask sample_clean table_empty
         \<lparr> colname = ''B'', labels = [rule ''a'' (TextIsRegex ''*'')] \<rparr> ()
       = Inr (None,
              [I18nMessage ''error.invalidRegex''
                 [(''value'', Str ''*''),
                  (''message'', Str ''no argument for repetition operator: *'')]])"
  by code_simp

section \<open>The well-formed output\<close>

lemma after_rules_well_formed:
  assumes "after_rules ev t pre st"
  shows "well_formed (nulls st) (indices st) (vals st)"
proof -
  from assms have l: "length (indices st) = length (nulls st)"
    and d: "distinct (vals st)"
    by (simp_all add: after_rules_def distinct_first_seen)
  have "nulls st ! i \<or> indices st ! i < length (vals st)" if "i < length (nulls st)" for i
  proof -
    from that assms have "row_ok ev t pre st i" by (simp add: after_rules_def)
    then show ?thesis by (auto simp: row_ok_def split: if_splits)
  qed
  with l have "list_all2 (\<lambda>n i. n \<or> i < length (vals st)) (nulls st) (indices st)"
    by (simp add: list_all2_conv_all_nth)
  with l d show ?thesis by (simp add: well_formed_def)
qed

text \<open>
  C10. After each rule (after the first \<open>k\<close> rules, for every \<open>k\<close>) and at return, every row
  that is not null has an index below the number of dictionary values, and the
  dictionary values are pairwise distinct: the array returned refers to existing
  dictionary entries only.
\<close>

theorem well_formed_output:
  assumes "masks_fit ev t specs"
  shows "(\<forall>k \<le> length specs. \<exists>st. label_loop ev t (init_state t) (take k specs) = Inr st
            \<and> well_formed (nulls st) (indices st) (vals st))
         \<and> (\<exists>arr errs. generate_label_column ev t specs = Inr (arr, errs)
               \<and> well_formed (dict_mask arr) (dict_indices arr) (dictionary arr))"
proof (intro conjI allI impI)
  fix k
  from label_loop_result [OF masks_fit_take [OF assms]] obtain st where
    "label_loop ev t (init_state t) (take k specs) = Inr st" and
    "after_rules ev t (take k specs) st"
    by blast
  with after_rules_well_formed
  show "\<exists>st. label_loop ev t (init_state t) (take k specs) = Inr st
          \<and> well_formed (nulls st) (indices st) (vals st)"
    by blast
next
  from generate_result [OF assms] obtain st where
    a: "after_rules ev t specs st" and
    g: "generate_label_column ev t specs
          = Inr (from_arrays (indices st) (vals st) (nulls st), pattern_errors ev t specs)"
    by blast
  from after_rules_well_formed [OF a] g
  show "\<exists>arr errs. generate_label_column ev t specs = Inr (arr, errs)
          \<and> well_formed (dict_mask arr) (dict_indices arr) (dictionary arr)"
    by (simp add: from_arrays_def)
qed

theorem well_formed_output_witness:
  "masks_fit sample_mask table_A rules_priority
   \<and> (\<exists>st. label_loop sample_mask table_A (init_state table_A) (take 1 rules_priority) = Inr st
         \<and> well_formed (nulls st) (indices st) (vals st))
   \<and> (\<exists>arr errs. generate_label_column sample_mask table_A rules_priority = Inr (arr, errs)
         \<and> well_formed (dict_mask arr) (dict_indices arr) (dictionary arr))"
proof -
  have f: "masks_fit sample_mask table_A rules_priority" by code_simp
  have k: "1 \<le> length rules_priority" by code_simp
  from well_formed_output [OF f] k f show ?thesis by blast
qed

section \<open>A new column name that the sanitizer cleans\<close>

text \<open>
  C8. When no rule fails with a pattern error and the target name is not yet a column
  of the table, \<open>render\<close> writes the table with the label column appended under the name
  that the sanitizer returns and returns the sanitizer's warnings, whatever they are:
  a warning about a cleaned name does not keep the table from being written.
\<close>

theorem cleaned_name_advisory:
  assumes fit: "masks_fit ev t (labels ps)" and name: "colname ps \<noteq> []"
    and ok: "pattern_errors ev t (labels ps) = []"
    and new: "colname ps \<notin> set (column_names t)"
    and san: "san [colname ps] (column_names t) settings = ([clean], warnings)"
  shows "\<exists>arr. generate_label_column ev t (labels ps) = Inr (arr, [])
           \<and> render ev san t ps settings
               = Inr (Some (t\<lparr> columns := columns t @ [(clean, DictArray arr)] \<rparr>), warnings)"
proof -
  from generate_result [OF fit] obtain st where
    a: "after_rules ev t (labels ps) st" and
    g: "generate_label_column ev t (labels ps)
          = Inr (from_arrays (indices st) (vals st) (nulls st), pattern_errors ev t (labels ps))"
    by blast
  let ?arr = "from_arrays (indices st) (vals st) (nulls st)"
  from a have "array_len (DictArray ?arr) = num_rows t"
    by (simp add: from_arrays_def after_rules_def)
  with new san
  have "add_column san t (colname ps) (DictArray ?arr) settings
      = Inr (t\<lparr> columns := columns t @ [(clean, DictArray ?arr)] \<rparr>, warnings)"
    by (simp add: add_column_def append_column_def)
  with g ok name show ?thesis by (simp add: render_def)
qed

theorem cleaned_name_advisory_witness:
  "masks_fit sample_mask table_A
       (labels \<lparr> colname = ''B'' @ [CHR 0x0D], labels = [rule ''a'' (NumberIs 2)] \<rparr>)
   \<and> colname \<lparr> colname = ''B'' @ [CHR 0x0D], labels = [rule ''a'' (NumberIs 2)] \<rparr> \<noteq> []
   \<and> pattern_errors sample_mask table_A [rule ''a'' (NumberIs 2)] = []
   \<and> ''B'' @ [CHR 0x0D] \<notin> set (column_names table_A)
   \<and> sample_clean [''B'' @ [CHR 0x0D]] (column_names table_A) ()
       = ([''B''], [I18nMessage ''util.colnames.warnings.ascii_cleaned''
                      [(''n_columns'', Num 1), (''first_colname'', Str ''B'')]])
   \<and> render sample_mask sample_clean table_A
         \<lparr> colname = ''B'' @ [CHR 0x0D], labels = [rule ''a'' (NumberIs 2)] \<rparr> ()
       = Inr (Some \<lparr> num_rows = 3, columns = [(''A'', PlainArray [1, 2, 3]), (''B'', label_a)] \<rparr>,
              [I18nMessage ''util.colnames.warnings.ascii_cleaned''
                 [(''n_columns'', Num 1), (''first_colname'', Str ''B'')]])"
proof -
  let ?ps = "\<lparr> colname = ''B'' @ [CHR 0x0D], labels = [rule ''a'' (NumberIs 2)] \<rparr>"
  have f: "masks_fit sample_mask table_A (labels ?ps)" by code_simp
  have n: "colname ?ps \<noteq> []" by simp
  have e: "pattern_errors sample_mask table_A (labels ?ps) = []" by code_simp
  have c: "colname ?ps \<notin> set (column_names table_A)" by code_simp
  have s: "sample_clean [colname ?ps] (column_names table_A) ()
       = ([''B''], [I18nMessage ''util.colnames.warnings.ascii_cleaned''
                      [(''n_columns'', Num 1), (''first_colname'', Str ''B'')]])"
    by code_simp
  have g: "generate_label_column sample_mask table_A (labels ?ps)
      = Inr (\<lparr> dict_indices = [0, 0, 0], dictionary = [''a''],
               dict_mask = [True, False, True] \<rparr>, [])"
    by code_simp
  note cleaned_name_advisory
    [where ev = sample_mask and t = table_A and ps = "?ps" and san = sample_clean
       and settings = "()" and clean = "''B''", OF f n e c s]
  with g f n e c s show ?thesis
    by (simp add: table_A_def label_a_def)
qed

end
